theory Spec2Isabelle
  imports Complex_Main "HOL-Library.Multiset"
begin

section \<open>The quiz engine: data model\<close>

text \<open>
  The engine is one script with free-standing global variables, mutated by the handlers of
  the page's buttons. The model keeps every global that the game logic reads or writes as a
  field of one record \<open>state\<close>, and every handler as a function from states to states.

  A handler that throws leaves the globals as they were at the throw (an uncaught exception
  in a browser event handler ends the handler, not the page), so a handler returns a pair:
  the exception, if one was thrown, and the state it left behind.
\<close>

datatype error = TypeError | SyntaxError

text \<open>
  A question index as the script holds it: a number, or \<open>undefined\<close> (\<open>None\<close>) when it
  was read past the end of an array.
\<close>

type_synonym qindex = "nat option"

record question =
  question_text :: string
  options :: "string list"
  correct :: int
  funFact :: string
  wiki :: string

record rank =
  rank_min :: int
  label :: string

record theme =
  storagePrefix :: string
  ranks :: "rank list"

record user_stats =
  seenQuestions :: "qindex list"
  correctQuestions :: "qindex list"
  totalCorrect :: nat
  totalAnswered :: nat

record history_entry =
  questionIndex :: qindex
  selectedIndex :: nat
  isCorrect :: bool
  shuffledOptions :: "int list"
  correctShuffled :: int

text \<open>
  \<open>localStorage\<close> maps a key to a string. Two kinds of strings are written by the script:
  the JSON text of a statistics object (kept here as the object itself) and the plain name
  of the last user.
\<close>

datatype stored = StoredStats user_stats | StoredText string

datatype screen = LoginScreen | GameScreen | CompletionScreen

text \<open>
  \<open>Math.random\<close> is modelled by an explicit supply of natural numbers, one per call:
  \<open>Math.floor(Math.random() * n)\<close> takes the next number modulo \<open>n\<close>, which ranges over
  exactly the integers \<open>0 .. n - 1\<close> that the expression can produce.
\<close>

type_synonym rng = "nat \<Rightarrow> nat"

record state =
  questions :: "question list"
  quiz_theme :: theme
  localStorage :: "string \<rightharpoonup> stored"
  rng :: rng
  currentUser :: "string option"
  currentQuestionIndex :: qindex
  currentShuffledOptions :: "int list"
  currentCorrectShuffled :: int
  sessionScore :: nat
  streak :: nat
  sessionQuestions :: "nat list"
  sessionAnswered :: nat
  userStats :: user_stats
  answerHistory :: "history_entry option list"
  viewingIndex :: nat
  browseReturnPosition :: "nat option"
  activeScreen :: screen
  optionsClickable :: bool
  finalPercentage :: int
  rankDisplay :: string

text \<open>
  The last four fields are the part of the page that the game logic depends on: which
  screen carries the \<open>active\<close> class, whether the option elements currently rendered have
  an \<open>onclick\<close> handler, and the percentage and rank label computed for the completion
  screen. All other rendering (texts, colours, confetti, the modal, button visibility) is
  left out.
\<close>

definition QUESTIONS_PER_GAME :: nat where
  "QUESTIONS_PER_GAME = 20"

text \<open>
  The default rank table of the theme. The labels are the ASCII text of the source's
  labels, without their leading pictographs.
\<close>

definition default_ranks :: "rank list" where
  "default_ranks =
     [\<lparr>rank_min = 100, label = ''Oracle of Delphi - Perfect Round!''\<rparr>,
      \<lparr>rank_min = 90, label = ''Olympian Champion''\<rparr>,
      \<lparr>rank_min = 75, label = ''Hero of Legend''\<rparr>,
      \<lparr>rank_min = 60, label = ''Worthy Warrior''\<rparr>,
      \<lparr>rank_min = 40, label = ''Eager Student''\<rparr>,
      \<lparr>rank_min = 0, label = ''Humble Mortal''\<rparr>]"

definition default_theme :: theme where
  "default_theme = \<lparr>storagePrefix = ''quiz_game'', ranks = default_ranks\<rparr>"

section \<open>JavaScript arrays\<close>

text \<open>Reading an array at an index: \<open>undefined\<close> past the end.\<close>

definition array_get :: "'a list \<Rightarrow> nat \<Rightarrow> 'a option" where
  "array_get xs i = (if i < length xs then Some (xs ! i) else None)"

text \<open>
  Reading an array of possibly missing entries (the answer history, whose holes are
  \<open>undefined\<close>).
\<close>

definition sparse_get :: "'a option list \<Rightarrow> nat \<Rightarrow> 'a option" where
  "sparse_get xs i = (if i < length xs then xs ! i else None)"

text \<open>Assigning at an index: past the end the array is extended, with holes in between.\<close>

definition sparse_set :: "'a option list \<Rightarrow> nat \<Rightarrow> 'a \<Rightarrow> 'a option list" where
  "sparse_set xs i v =
     (if i < length xs then xs[i := Some v]
      else xs @ replicate (i - length xs) None @ [Some v])"

text \<open>\<open>indexOf\<close>: the first position holding the value, or \<open>-1\<close>.\<close>

fun index_from :: "nat \<Rightarrow> 'a list \<Rightarrow> 'a \<Rightarrow> int" where
  "index_from k [] v = -1"
| "index_from k (x # xs) v = (if x = v then int k else index_from (Suc k) xs v)"

definition indexOf :: "'a list \<Rightarrow> 'a \<Rightarrow> int" where
  "indexOf xs v = index_from 0 xs v"

definition array_includes :: "'a list \<Rightarrow> 'a \<Rightarrow> bool" where
  "array_includes xs v = (v \<in> set xs)"

text \<open>\<open>push\<close> appends; \<open>splice(k, 1)\<close> removes the element at position \<open>k\<close>.\<close>

definition push :: "'a list \<Rightarrow> 'a \<Rightarrow> 'a list" where
  "push xs v = xs @ [v]"

definition splice1 :: "'a list \<Rightarrow> nat \<Rightarrow> 'a list" where
  "splice1 xs k = take k xs @ drop (Suc k) xs"

section \<open>Fisher-Yates shuffle\<close>

definition random_below :: "nat \<Rightarrow> rng \<Rightarrow> nat \<times> rng" where
  "random_below n g = (g 0 mod n, \<lambda>k. g (Suc k))"

text \<open>
  The destructuring swap reads both elements before it writes either.
\<close>

definition swap :: "nat \<Rightarrow> nat \<Rightarrow> 'a list \<Rightarrow> 'a list" where
  "swap i j xs = xs[i := xs ! j, j := xs ! i]"

text \<open>
  The loop \<open>for (i = length - 1; i > 0; i--)\<close>, as a function of the current \<open>i\<close>.
\<close>

fun shuffle_loop :: "nat \<Rightarrow> 'a list \<Rightarrow> rng \<Rightarrow> 'a list \<times> rng" where
  "shuffle_loop 0 xs g = (xs, g)"
| "shuffle_loop (Suc k) xs g =
     (let (j, g') = random_below (Suc k + 1) g
      in shuffle_loop k (swap (Suc k) j xs) g')"

definition shuffle :: "'a list \<Rightarrow> rng \<Rightarrow> 'a list \<times> rng" where
  "shuffle xs g = shuffle_loop (length xs - 1) xs g"

section \<open>Selecting the questions of a session\<close>

text \<open>
  One of the three \<open>for ... of\<close> loops: push the elements of a category until the
  selection holds \<open>QUESTIONS_PER_GAME\<close> indices.
\<close>

fun push_until_full :: "nat list \<Rightarrow> nat list \<Rightarrow> nat list" where
  "push_until_full selected [] = selected"
| "push_until_full selected (i # rest) =
     (if length selected \<ge> QUESTIONS_PER_GAME then selected
      else push_until_full (push selected i) rest)"

text \<open>The three categories, each a filter of \<open>allIndices\<close>.\<close>

definition allIndices :: "state \<Rightarrow> nat list" where
  "allIndices s = [0 ..< length (questions s)]"

definition unseen_of :: "state \<Rightarrow> nat list" where
  "unseen_of s =
     (let seen = set (seenQuestions (userStats s))
      in filter (\<lambda>i. Some i \<notin> seen) (allIndices s))"

definition seenIncorrect_of :: "state \<Rightarrow> nat list" where
  "seenIncorrect_of s =
     (let seen = set (seenQuestions (userStats s));
          correct_set = set (correctQuestions (userStats s))
      in filter (\<lambda>i. Some i \<in> seen \<and> Some i \<notin> correct_set) (allIndices s))"

definition seenCorrect_of :: "state \<Rightarrow> nat list" where
  "seenCorrect_of s =
     (let correct_set = set (correctQuestions (userStats s))
      in filter (\<lambda>i. Some i \<in> correct_set) (allIndices s))"

definition selectSessionQuestions :: "state \<Rightarrow> nat list \<times> state" where
  "selectSessionQuestions s =
     (let (unseen, g1) = shuffle (unseen_of s) (rng s);
          (seenIncorrect, g2) = shuffle (seenIncorrect_of s) g1;
          (seenCorrect, g3) = shuffle (seenCorrect_of s) g2;
          selected = [];
          selected = push_until_full selected unseen;
          selected = push_until_full selected seenIncorrect;
          selected = push_until_full selected seenCorrect;
          (selected, g4) = shuffle selected g3
      in (selected, s\<lparr>rng := g4\<rparr>))"

section \<open>Stored progress\<close>

text \<open>
  The storage key of a user. A template literal renders \<open>null\<close> (no current user) as the
  text \<open>null\<close>.
\<close>

definition storage_key :: "theme \<Rightarrow> string option \<Rightarrow> string" where
  "storage_key th username =
     storagePrefix th @ ''_'' @ (case username of None \<Rightarrow> ''null'' | Some u \<Rightarrow> u)"

definition empty_stats :: user_stats where
  "empty_stats = \<lparr>seenQuestions = [], correctQuestions = [], totalCorrect = 0, totalAnswered = 0\<rparr>"

text \<open>
  \<open>getUserData\<close>: the stored object, or the empty default when the key is absent. The only
  stored text that is not a statistics object is the last user's name, under the key of a
  user called \<open>lastUser\<close>; \<open>JSON.parse\<close> of a name is modelled as the syntax error that it
  raises for every name that is not itself JSON text.
\<close>

definition getUserData :: "state \<Rightarrow> string \<Rightarrow> error + user_stats" where
  "getUserData s username =
     (case localStorage s (storage_key (quiz_theme s) (Some username)) of
        None \<Rightarrow> Inr empty_stats
      | Some (StoredStats d) \<Rightarrow> Inr d
      | Some (StoredText t) \<Rightarrow> Inl SyntaxError)"

definition saveUserData :: "string option \<Rightarrow> user_stats \<Rightarrow> state \<Rightarrow> state" where
  "saveUserData username d s =
     s\<lparr>localStorage := (localStorage s)(storage_key (quiz_theme s) username \<mapsto> StoredStats d)\<rparr>"

section \<open>The completion screen\<close>

text \<open>
  \<open>Math.round\<close> rounds to the nearest integer, halves upwards. The percentage is computed
  here over the rationals; the script computes it in double precision, where
  \<open>(score / 20) * 100\<close> differs from the exact multiple of five by far less than one half,
  so that the rounded value is the same.
\<close>

definition Math_round :: "rat \<Rightarrow> int" where
  "Math_round x = \<lfloor>x + 1 / 2\<rfloor>"

text \<open>
  The loop over the rank table: the label of the first entry whose minimum the percentage
  reaches, or the empty text. \<open>showCompletionScreen\<close> appends a line about the number of
  mastered questions to this label before it displays it; \<open>rankDisplay\<close> keeps the label.
\<close>

fun find_rank :: "rank list \<Rightarrow> int \<Rightarrow> string" where
  "find_rank [] percentage = []"
| "find_rank (r # rest) percentage =
     (if percentage \<ge> rank_min r then label r else find_rank rest percentage)"

definition showCompletionScreen :: "state \<Rightarrow> error option \<times> state" where
  "showCompletionScreen s =
     (let percentage = Math_round ((of_nat (sessionScore s) / of_nat QUESTIONS_PER_GAME) * 100);
          rank = find_rank (ranks (quiz_theme s)) percentage
      in (None, s\<lparr>activeScreen := CompletionScreen,
                   finalPercentage := percentage,
                   rankDisplay := rank\<rparr>))"

section \<open>Loading and answering a question\<close>

definition question_at :: "state \<Rightarrow> qindex \<Rightarrow> question option" where
  "question_at s i = (case i of None \<Rightarrow> None | Some k \<Rightarrow> array_get (questions s) k)"

text \<open>
  \<open>loadNextQuestion\<close> reads \<open>question.correct\<close> after it has shuffled the option positions:
  when the question is \<open>undefined\<close>, that read throws, with \<open>viewingIndex\<close>,
  \<open>currentQuestionIndex\<close> and \<open>currentShuffledOptions\<close> already assigned and the options
  on the page not yet replaced.
\<close>

definition loadNextQuestion :: "state \<Rightarrow> error option \<times> state" where
  "loadNextQuestion s =
     (if sessionAnswered s \<ge> QUESTIONS_PER_GAME then showCompletionScreen s
      else
        let s1 = s\<lparr>viewingIndex := sessionAnswered s,
                    currentQuestionIndex := array_get (sessionQuestions s) (sessionAnswered s)\<rparr>;
            question = question_at s1 (currentQuestionIndex s1);
            (shuffled, g) = shuffle [0, 1, 2, 3] (rng s1);
            s2 = s1\<lparr>currentShuffledOptions := shuffled, rng := g\<rparr>
        in case question of
             None \<Rightarrow> (Some TypeError, s2)
           | Some q \<Rightarrow>
               (None, s2\<lparr>currentCorrectShuffled := indexOf shuffled (correct q),
                          optionsClickable := True\<rparr>))"

text \<open>
  \<open>selectAnswer\<close> updates all its globals and the storage before it renders the result;
  the rendering reads \<open>question.wiki\<close> and throws there when no question is loaded.
\<close>

definition selectAnswer :: "nat \<Rightarrow> state \<Rightarrow> error option \<times> state" where
  "selectAnswer selected s =
     (let question = question_at s (currentQuestionIndex s);
          correct_now = (int selected = currentCorrectShuffled s);
          q = currentQuestionIndex s;
          st = userStats s;
          s1 = s\<lparr>optionsClickable := False\<rparr>;
          s2 = (if correct_now then
                  s1\<lparr>sessionScore := sessionScore s1 + 1,
                     streak := streak s1 + 1,
                     userStats :=
                       st\<lparr>correctQuestions :=
                            (if \<not> array_includes (correctQuestions st) q
                             then push (correctQuestions st) q else correctQuestions st),
                          totalCorrect := totalCorrect st + 1\<rparr>\<rparr>
                else
                  let correctIdx = indexOf (correctQuestions st) q
                  in s1\<lparr>streak := 0,
                        userStats :=
                          (if correctIdx > -1
                           then st\<lparr>correctQuestions := splice1 (correctQuestions st) (nat correctIdx)\<rparr>
                           else st)\<rparr>);
          st2 = userStats s2;
          st3 = st2\<lparr>seenQuestions :=
                      (if \<not> array_includes (seenQuestions st2) q
                       then push (seenQuestions st2) q else seenQuestions st2),
                    totalAnswered := totalAnswered st2 + 1\<rparr>;
          s3 = s2\<lparr>userStats := st3,
                  answerHistory :=
                    sparse_set (answerHistory s2) (viewingIndex s2)
                      \<lparr>questionIndex = q,
                       selectedIndex = selected,
                       isCorrect = correct_now,
                       shuffledOptions = currentShuffledOptions s2,
                       correctShuffled = currentCorrectShuffled s2\<rparr>,
                  sessionAnswered := sessionAnswered s2 + 1\<rparr>;
          s4 = saveUserData (currentUser s3) (userStats s3) s3
      in (case question of None \<Rightarrow> Some TypeError | Some _ \<Rightarrow> None, s4))"

section \<open>Browsing the answered questions\<close>

text \<open>
  \<open>showReviewQuestion\<close> only renders: it throws on a missing history entry or question, and
  otherwise replaces the options on the page by disabled ones.
\<close>

definition showReviewQuestion :: "nat \<Rightarrow> state \<Rightarrow> error option \<times> state" where
  "showReviewQuestion position s =
     (case sparse_get (answerHistory s) position of
        None \<Rightarrow> (Some TypeError, s)
      | Some entry \<Rightarrow>
          (case question_at s (questionIndex entry) of
             None \<Rightarrow> (Some TypeError, s)
           | Some q \<Rightarrow> (None, s\<lparr>optionsClickable := False\<rparr>)))"

definition goBack :: "state \<Rightarrow> error option \<times> state" where
  "goBack s =
     (if viewingIndex s \<le> 0 then (None, s)
      else
        let s1 = (if browseReturnPosition s = None
                  then s\<lparr>browseReturnPosition := Some (viewingIndex s)\<rparr> else s);
            s2 = s1\<lparr>viewingIndex := viewingIndex s1 - 1\<rparr>
        in showReviewQuestion (viewingIndex s2) s2)"

definition goForward :: "state \<Rightarrow> error option \<times> state" where
  "goForward s =
     (case browseReturnPosition s of
        None \<Rightarrow> (None, s)
      | Some returnPos \<Rightarrow>
          let s1 = s\<lparr>viewingIndex := viewingIndex s + 1\<rparr>
          in if viewingIndex s1 \<ge> returnPos then
               let s2 = s1\<lparr>browseReturnPosition := None, viewingIndex := returnPos\<rparr>
               in if viewingIndex s2 \<ge> sessionAnswered s2 then loadNextQuestion s2
                  else showReviewQuestion (viewingIndex s2) s2
             else showReviewQuestion (viewingIndex s1) s1)"

definition nextQuestion :: "state \<Rightarrow> error option \<times> state" where
  "nextQuestion s =
     (let s1 = s\<lparr>browseReturnPosition := None\<rparr>
      in if sessionAnswered s1 \<ge> QUESTIONS_PER_GAME then showCompletionScreen s1
         else loadNextQuestion s1)"

section \<open>Starting and ending sessions\<close>

text \<open>The assignments shared by every handler that starts a session.\<close>

definition new_session :: "state \<Rightarrow> error option \<times> state" where
  "new_session s =
     (let s1 = s\<lparr>sessionScore := 0, sessionAnswered := 0, streak := 0, answerHistory := [],
                  viewingIndex := 0, browseReturnPosition := None\<rparr>;
          (selected, s2) = selectSessionQuestions s1;
          s3 = s2\<lparr>sessionQuestions := selected, activeScreen := GameScreen\<rparr>
      in loadNextQuestion s3)"

text \<open>\<open>startGame\<close>, given the trimmed text of the name field.\<close>

definition startGame :: "string \<Rightarrow> state \<Rightarrow> error option \<times> state" where
  "startGame username s =
     (if username = [] then (None, s)
      else
        let s1 = s\<lparr>currentUser := Some username,
                    localStorage :=
                      (localStorage s)(storagePrefix (quiz_theme s) @ ''_lastUser''
                                       \<mapsto> StoredText username)\<rparr>
        in case getUserData s1 username of
             Inl e \<Rightarrow> (Some e, s1)
           | Inr d \<Rightarrow> new_session (s1\<lparr>userStats := d\<rparr>))"

text \<open>\<open>resetProgress\<close>, given the answer to its confirmation dialog.\<close>

definition resetProgress :: "bool \<Rightarrow> state \<Rightarrow> error option \<times> state" where
  "resetProgress confirmed s =
     (if confirmed then
        let s1 = s\<lparr>userStats := empty_stats\<rparr>;
            s2 = saveUserData (currentUser s1) (userStats s1) s1
        in new_session s2
      else (None, s))"

definition playAgain :: "state \<Rightarrow> error option \<times> state" where
  "playAgain s = new_session s"

definition logout :: "state \<Rightarrow> error option \<times> state" where
  "logout s =
     (None, s\<lparr>currentUser := None, sessionScore := 0, streak := 0, sessionQuestions := [],
              sessionAnswered := 0, answerHistory := [], viewingIndex := 0,
              browseReturnPosition := None, userStats := empty_stats,
              activeScreen := LoginScreen\<rparr>)"

section \<open>The page after loading\<close>

text \<open>
  The globals as the script declares them, for a loaded question bank, a theme, the
  contents of the storage and a random supply; the login screen is the one shown.
\<close>

definition initial_state ::
  "question list \<Rightarrow> theme \<Rightarrow> (string \<rightharpoonup> stored) \<Rightarrow> rng \<Rightarrow> state" where
  "initial_state qs th ls g =
     \<lparr>questions = qs, quiz_theme = th, localStorage = ls, rng = g,
      currentUser = None, currentQuestionIndex = Some 0,
      currentShuffledOptions = [], currentCorrectShuffled = 0,
      sessionScore = 0, streak = 0, sessionQuestions = [], sessionAnswered = 0,
      userStats = empty_stats, answerHistory = [], viewingIndex = 0,
      browseReturnPosition = None,
      activeScreen = LoginScreen, optionsClickable = False,
      finalPercentage = 0, rankDisplay = []\<rparr>"

section \<open>Example inputs\<close>

text \<open>The three sample questions of \<open>questions.js\<close>.\<close>

definition sample_questions :: "question list" where
  "sample_questions =
     [\<lparr>question_text = ''Sample question 1 - Replace with your content'',
       options = [''Option A'', ''Option B'', ''Option C'', ''Option D''],
       correct = 2,
       funFact = ''This is an interesting fact about the answer that will be shown to the user after they answer.'',
       wiki = ''https://en.wikipedia.org/wiki/Example''\<rparr>,
      \<lparr>question_text = ''Sample question 2 - Replace with your content'',
       options = [''Choice 1'', ''Choice 2'', ''Choice 3'', ''Choice 4''],
       correct = 0,
       funFact = ''Another fun fact that provides context and makes learning engaging.'',
       wiki = ''https://en.wikipedia.org/wiki/Example''\<rparr>,
      \<lparr>question_text = ''Sample question 3 - Replace with your content'',
       options = [''Answer A'', ''Answer B'', ''Answer C'', ''Answer D''],
       correct = 3,
       funFact = ''Fun facts help reinforce learning and keep users engaged with your content.'',
       wiki = ''https://en.wikipedia.org/wiki/Example''\<rparr>]"

definition zero_rng :: rng where
  "zero_rng = (\<lambda>_. 0)"

definition sample_page :: state where
  "sample_page = initial_state sample_questions default_theme Map.empty zero_rng"

text \<open>
  A progress record that lists question 0 as answered correctly but not as seen, which no
  sequence of answers produces.
\<close>

definition unseen_but_correct :: state where
  "unseen_but_correct =
     sample_page\<lparr>userStats :=
       \<lparr>seenQuestions = [], correctQuestions = [Some 0], totalCorrect = 1, totalAnswered = 1\<rparr>\<rparr>"

text \<open>A progress record in which question 1 was seen and missed, and question 2 mastered.\<close>

definition partly_played :: state where
  "partly_played =
     sample_page\<lparr>userStats :=
       \<lparr>seenQuestions = [Some 1, Some 2], correctQuestions = [Some 2],
        totalCorrect = 1, totalAnswered = 2\<rparr>\<rparr>"

text \<open>A bank of twenty-one questions and a user who has seen none of them.\<close>

definition big_bank :: state where
  "big_bank = initial_state (replicate 21 (hd sample_questions)) default_theme Map.empty zero_rng"

text \<open>
  A session in which question 2 is loaded, with the option positions shuffled to
  \<open>[1, 2, 3, 0]\<close>, so that its correct option 3 is shown at position 2.
\<close>

definition replaying :: state where
  "replaying =
     partly_played\<lparr>sessionQuestions := [2, 1, 0], currentQuestionIndex := Some 2,
       currentShuffledOptions := [1, 2, 3, 0], currentCorrectShuffled := 2,
       activeScreen := GameScreen, optionsClickable := True\<rparr>"

section \<open>The invariant of the progress record\<close>

definition progress_inv :: "user_stats \<Rightarrow> bool" where
  "progress_inv st = (set (correctQuestions st) \<subseteq> set (seenQuestions st))"

text \<open>
  The net effect of one answer on the progress record: whether it was correct, and for
  which question.
\<close>

definition answered_stats :: "bool \<Rightarrow> qindex \<Rightarrow> user_stats \<Rightarrow> user_stats" where
  "answered_stats ok q st =
     \<lparr>seenQuestions = (if q \<in> set (seenQuestions st) then seenQuestions st
                        else seenQuestions st @ [q]),
      correctQuestions =
        (if ok then (if q \<in> set (correctQuestions st) then correctQuestions st
                     else correctQuestions st @ [q])
         else remove1 q (correctQuestions st)),
      totalCorrect = (if ok then totalCorrect st + 1 else totalCorrect st),
      totalAnswered = totalAnswered st + 1\<rparr>"

section \<open>Sequences of back and forward presses\<close>




text \<open>
  The globals that browsing has no business with: the score, the streak, the number of
  answers, the history, the session's questions, the progress record and its stored copies,
  the current user, the question bank and the theme. These are all the globals of the script
  except \<open>viewingIndex\<close>, \<open>browseReturnPosition\<close> and the three variables of the question
  on display (\<open>currentQuestionIndex\<close>, \<open>currentShuffledOptions\<close>,
  \<open>currentCorrectShuffled\<close>).
\<close>

definition kept_by_browsing ::
  "state \<Rightarrow> nat \<times> nat \<times> nat \<times> history_entry option list \<times> nat list \<times> user_stats
            \<times> (string \<rightharpoonup> stored) \<times> string option \<times> question list \<times> theme" where
  "kept_by_browsing s =
     (sessionScore s, streak s, sessionAnswered s, answerHistory s, sessionQuestions s,
      userStats s, localStorage s, currentUser s, questions s, quiz_theme s)"

section \<open>The page as a state machine\<close>

text \<open>
  What a user can do with the page. The buttons call their handlers directly. An option
  calls \<open>selectAnswer\<close> through the \<open>onclick\<close> handler that \<open>loadNextQuestion\<close> gives
  it, which \<open>selectAnswer\<close> removes and which the options rendered by
  \<open>showReviewQuestion\<close> never have; and it can be clicked only on the screen that is
  shown.
\<close>

datatype event =
  StartGame string
  | ClickOption nat
  | NextQuestion
  | GoBack
  | GoForward
  | ResetProgress bool
  | PlayAgain
  | Logout

fun handle :: "event \<Rightarrow> state \<Rightarrow> error option \<times> state" where
  "handle (StartGame username) s = startGame username s"
| "handle (ClickOption d) s =
     (if activeScreen s = GameScreen \<and> optionsClickable s then selectAnswer d s
      else (None, s))"
| "handle NextQuestion s = nextQuestion s"
| "handle GoBack s = goBack s"
| "handle GoForward s = goForward s"
| "handle (ResetProgress confirmed) s = resetProgress confirmed s"
| "handle PlayAgain s = playAgain s"
| "handle Logout s = logout s"

fun run :: "event list \<Rightarrow> state \<Rightarrow> state" where
  "run [] s = s"
| "run (e # es) s = run es (snd (handle e s))"

text \<open>
  The invariant of the session counters: the session has at most \<open>QUESTIONS_PER_GAME\<close>
  questions, no more answers than questions, and an option that can be clicked belongs to
  a question of the session that is not answered yet.
\<close>

definition session_inv :: "state \<Rightarrow> bool" where
  "session_inv s =
     (length (sessionQuestions s) \<le> QUESTIONS_PER_GAME
      \<and> sessionAnswered s \<le> length (sessionQuestions s)
      \<and> (activeScreen s = GameScreen \<and> optionsClickable s
           \<longrightarrow> sessionAnswered s < length (sessionQuestions s))
      \<and> (optionsClickable s \<longrightarrow> questions s \<noteq> []))"

text \<open>
  A user plays the three sample questions: starts, and answers each question at display
  position 0, pressing Next in between.
\<close>

definition three_answered :: state where
  "three_answered =
     run [StartGame ''ada'', ClickOption 0, NextQuestion, ClickOption 0, NextQuestion,
          ClickOption 0] sample_page"

text \<open>
  A session of twenty questions, all answered, eighteen of them correctly.
\<close>

definition twenty_answered :: state where
  "twenty_answered =
     big_bank\<lparr>sessionQuestions := [0 ..< 20], sessionAnswered := 20, sessionScore := 18,
       viewingIndex := 19, activeScreen := GameScreen\<rparr>"

text \<open>The page with an empty question bank.\<close>

definition empty_page :: state where
  "empty_page = initial_state [] default_theme Map.empty zero_rng"





text \<open>
  What the completion screen shows when it has just been computed from the session's
  counters.
\<close>

definition completed_ok :: "state \<Rightarrow> bool" where
  "completed_ok s =
     (QUESTIONS_PER_GAME \<le> sessionAnswered s
      \<and> finalPercentage s = Math_round ((of_nat (sessionScore s) / of_nat QUESTIONS_PER_GAME) * 100)
      \<and> rankDisplay s = find_rank (ranks (quiz_theme s)) (finalPercentage s))"

text \<open>
  A well-formed progress record: the two arrays represent sets (no index twice) and every
  correct index is a seen one. A well-formed storage holds only such records.
\<close>

definition stats_wf :: "user_stats \<Rightarrow> bool" where
  "stats_wf st =
     (distinct (seenQuestions st) \<and> distinct (correctQuestions st)
      \<and> set (correctQuestions st) \<subseteq> set (seenQuestions st))"

definition storage_wf :: "(string \<rightharpoonup> stored) \<Rightarrow> bool" where
  "storage_wf ls = (\<forall>k d. ls k = Some (StoredStats d) \<longrightarrow> stats_wf d)"

section \<open>Properties of the shuffle and of the selection\<close>

lemma mset_swap_js: "i < length xs \<Longrightarrow> j < length xs \<Longrightarrow> mset (swap i j xs) = mset xs"
  unfolding swap_def by (simp add: mset_swap)

lemma random_below_less: "0 < n \<Longrightarrow> fst (random_below n g) < n"
  by (simp add: random_below_def)

lemma mset_shuffle_loop:
  "k < length xs \<or> xs = [] \<and> k = 0 \<Longrightarrow> mset (fst (shuffle_loop k xs g)) = mset xs"
proof (induction k arbitrary: xs g)
  case 0
  then show ?case by simp
next
  case (Suc k)
  then have len: "Suc k < length xs" by auto
  obtain j g' where r: "random_below (Suc k + 1) g = (j, g')" by (cases "random_below (Suc k + 1) g")
  have "j < Suc k + 1" using random_below_less [of "Suc k + 1" g] r by simp
  then have j: "j < length xs" using len by simp
  have "mset (fst (shuffle_loop k (swap (Suc k) j xs) g')) = mset (swap (Suc k) j xs)"
    by (rule Suc.IH) (use len in \<open>simp add: swap_def\<close>)
  then show ?case using r len j by (simp add: mset_swap_js)
qed

lemma mset_shuffle: "mset (fst (shuffle xs g)) = mset xs"
  unfolding shuffle_def by (rule mset_shuffle_loop) (cases xs; simp)

lemma set_shuffle: "set (fst (shuffle xs g)) = set xs"
  using mset_shuffle [of xs g] by (rule mset_eq_setD)

lemma length_shuffle: "length (fst (shuffle xs g)) = length xs"
  using mset_shuffle [of xs g] by (rule mset_eq_length)

lemma distinct_shuffle: "distinct (fst (shuffle xs g)) = distinct xs"
  using mset_shuffle [of xs g] by (rule mset_eq_imp_distinct_iff)

lemma push_until_full_eq:
  "push_until_full selected xs = selected @ take (QUESTIONS_PER_GAME - length selected) xs"
proof (induction xs arbitrary: selected)
  case Nil
  then show ?case by simp
next
  case (Cons i rest)
  show ?case
  proof (cases "length selected \<ge> QUESTIONS_PER_GAME")
    case True
    then show ?thesis by simp
  next
    case False
    then obtain d where d: "QUESTIONS_PER_GAME - length selected = Suc d"
      by (cases "QUESTIONS_PER_GAME - length selected") auto
    then have "QUESTIONS_PER_GAME - length (push selected i) = d" by (simp add: push_def)
    with False d Cons.IH [of "push selected i"] show ?thesis by (simp add: push_def)
  qed
qed

lemma push_until_full_take:
  "push_until_full (take QUESTIONS_PER_GAME xs) ys = take QUESTIONS_PER_GAME (xs @ ys)"
  by (simp add: push_until_full_eq min_def)

text \<open>The selection is a shuffle of the first twenty of the three shuffled categories.\<close>

lemma select_shape:
  "\<exists>U I C. mset U = mset (unseen_of s) \<and> mset I = mset (seenIncorrect_of s) \<and>
     mset C = mset (seenCorrect_of s) \<and>
     mset (fst (selectSessionQuestions s)) = mset (take QUESTIONS_PER_GAME (U @ I @ C))"
proof -
  define U where "U = fst (shuffle (unseen_of s) (rng s))"
  define g1 where "g1 = snd (shuffle (unseen_of s) (rng s))"
  define I where "I = fst (shuffle (seenIncorrect_of s) g1)"
  define g2 where "g2 = snd (shuffle (seenIncorrect_of s) g1)"
  define C where "C = fst (shuffle (seenCorrect_of s) g2)"
  define g3 where "g3 = snd (shuffle (seenCorrect_of s) g2)"
  have p: "push_until_full (push_until_full (push_until_full [] U) I) C
           = take QUESTIONS_PER_GAME (U @ I @ C)"
    using push_until_full_take [of "[]" U] push_until_full_take [of U I]
      push_until_full_take [of "U @ I" C] by simp
  have "fst (selectSessionQuestions s)
        = fst (shuffle (push_until_full (push_until_full (push_until_full [] U) I) C) g3)"
    by (simp add: selectSessionQuestions_def Let_def case_prod_beta U_def g1_def I_def g2_def C_def g3_def)
  then have "mset (fst (selectSessionQuestions s)) = mset (take QUESTIONS_PER_GAME (U @ I @ C))"
    by (simp add: p mset_shuffle)
  moreover have "mset U = mset (unseen_of s)" "mset I = mset (seenIncorrect_of s)"
    "mset C = mset (seenCorrect_of s)"
    by (simp_all add: U_def I_def C_def mset_shuffle)
  ultimately show ?thesis by blast
qed

lemma mset_filter_three:
  "mset (filter (\<lambda>x. \<not> P x) xs) + mset (filter (\<lambda>x. P x \<and> \<not> Q x) xs)
     + mset (filter (\<lambda>x. P x \<and> Q x) xs) = mset xs"
  by (induction xs) auto

lemma mset_categories:
  assumes "set (correctQuestions (userStats s)) \<subseteq> set (seenQuestions (userStats s))"
  shows "mset (unseen_of s) + mset (seenIncorrect_of s) + mset (seenCorrect_of s)
         = mset (allIndices s)"
proof -
  let ?seen = "set (seenQuestions (userStats s))"
  let ?cor = "set (correctQuestions (userStats s))"
  have c: "seenCorrect_of s = filter (\<lambda>i. Some i \<in> ?seen \<and> Some i \<in> ?cor) (allIndices s)"
    unfolding seenCorrect_of_def Let_def using assms by (intro filter_cong) auto
  show ?thesis
    unfolding c unfolding unseen_of_def seenIncorrect_of_def Let_def
    by (rule mset_filter_three)
qed

text \<open>
  Claim C1, as amended. For every progress state in which every index of
  \<open>correctQuestions\<close> is also in \<open>seenQuestions\<close>, every question bank and every random
  supply, \<open>selectSessionQuestions\<close> returns exactly \<open>min 20 N\<close> indices (\<open>N\<close> the size of
  the bank), without duplicates, each of them a valid index into the bank.
\<close>

theorem selectSessionQuestions_coverage:
  assumes "set (correctQuestions (userStats s)) \<subseteq> set (seenQuestions (userStats s))"
  shows "length (fst (selectSessionQuestions s)) = min QUESTIONS_PER_GAME (length (questions s))
         \<and> distinct (fst (selectSessionQuestions s))
         \<and> (\<forall>i \<in> set (fst (selectSessionQuestions s)). i < length (questions s))"
proof -
  obtain U I C where cat: "mset U = mset (unseen_of s)" "mset I = mset (seenIncorrect_of s)"
      "mset C = mset (seenCorrect_of s)"
    and sel: "mset (fst (selectSessionQuestions s)) = mset (take QUESTIONS_PER_GAME (U @ I @ C))"
    using select_shape [of s] by blast
  have "mset (U @ I @ C) = mset (allIndices s)"
    using mset_categories [OF assms] cat by (simp add: add.assoc)
  then have all: "mset (U @ I @ C) = mset [0 ..< length (questions s)]"
    by (simp only: allIndices_def)
  have len: "length (U @ I @ C) = length (questions s)"
    using mset_eq_length [OF all] by simp
  have dist: "distinct (U @ I @ C)"
    using mset_eq_imp_distinct_iff [OF all] by simp
  have sub: "set (U @ I @ C) = {0 ..< length (questions s)}"
    using mset_eq_setD [OF all] by simp
  have "length (fst (selectSessionQuestions s)) = min QUESTIONS_PER_GAME (length (questions s))"
    using mset_eq_length [OF sel] len by (simp only: length_take min.commute)
  moreover have "distinct (fst (selectSessionQuestions s))"
    using mset_eq_imp_distinct_iff [OF sel] dist distinct_take by blast
  moreover have "\<forall>i \<in> set (fst (selectSessionQuestions s)). i < length (questions s)"
  proof
    fix i assume "i \<in> set (fst (selectSessionQuestions s))"
    then have "i \<in> set (take QUESTIONS_PER_GAME (U @ I @ C))"
      using mset_eq_setD [OF sel] by simp
    then have "i \<in> set (U @ I @ C)" by (rule in_set_takeD)
    then have "i \<in> {0 ..< length (questions s)}" by (simp only: sub)
    then show "i < length (questions s)" by simp
  qed
  ultimately show ?thesis by blast
qed

theorem selectSessionQuestions_coverage_witness:
  "set (correctQuestions (userStats partly_played)) \<subseteq> set (seenQuestions (userStats partly_played))
   \<and> length (fst (selectSessionQuestions partly_played)) = 3
   \<and> distinct (fst (selectSessionQuestions partly_played))
   \<and> set (fst (selectSessionQuestions partly_played)) \<subseteq> {..< 3}"
proof -
  have h: "set (correctQuestions (userStats partly_played))
           \<subseteq> set (seenQuestions (userStats partly_played))"
    by (simp add: partly_played_def)
  have n: "length (questions partly_played) = 3"
    by (simp add: partly_played_def sample_page_def initial_state_def sample_questions_def)
  show ?thesis
    using h selectSessionQuestions_coverage [OF h]
    by (simp only: n QUESTIONS_PER_GAME_def) auto
qed

text \<open>
  Claim C1 as stated, for any two sets, fails: with the three sample questions and a
  progress record that has question 0 in \<open>correctQuestions\<close> but not in \<open>seenQuestions\<close>,
  question 0 is both unseen and in the third category, and the selection \<open>[2, 0, 0, 1]\<close>
  has four entries, one of them twice.
\<close>

theorem selectSessionQuestions_any_sets_counterexample:
  "length (fst (selectSessionQuestions unseen_but_correct))
     \<noteq> min QUESTIONS_PER_GAME (length (questions unseen_but_correct))
   \<and> \<not> distinct (fst (selectSessionQuestions unseen_but_correct))"
  by (simp add: selectSessionQuestions_def unseen_but_correct_def sample_page_def initial_state_def sample_questions_def zero_rng_def unseen_of_def seenIncorrect_of_def seenCorrect_of_def allIndices_def shuffle_def random_below_def swap_def push_def QUESTIONS_PER_GAME_def upt_rec)

lemma take_append_reaches:
  assumes "x \<in> set (take n (xs @ ys))" and "x \<notin> set xs"
  shows "length xs < n"
proof (rule ccontr)
  assume "\<not> length xs < n"
  then have "take n (xs @ ys) = take n xs" by simp
  with assms show False by (auto dest: in_set_takeD)
qed

lemma take_append_covers: "length xs < n \<Longrightarrow> set xs \<subseteq> set (take n (xs @ ys))"
  by simp

lemma length_unseen_of:
  "length (unseen_of s)
   = card {i. i < length (questions s) \<and> Some i \<notin> set (seenQuestions (userStats s))}"
proof -
  have "distinct (unseen_of s)" by (simp add: unseen_of_def allIndices_def)
  then have "length (unseen_of s) = card (set (unseen_of s))" by (simp add: distinct_card)
  also have "set (unseen_of s)
     = {i. i < length (questions s) \<and> Some i \<notin> set (seenQuestions (userStats s))}"
    by (auto simp: unseen_of_def allIndices_def)
  finally show ?thesis .
qed

text \<open>
  Claim C2. The unseen count is the number of valid indices not in \<open>seenQuestions\<close>. If it
  is at least twenty, every selected index is a valid unseen index. If it is below twenty,
  every unseen index is selected, and whenever a selected index is seen and correct, every
  seen and incorrect index is selected too. The selection never exceeds twenty indices. The
  statement is about which indices are selected, for every random supply.
\<close>

theorem selectSessionQuestions_priority:
  fixes s :: state
  defines "N \<equiv> length (questions s)"
    and "seen \<equiv> set (seenQuestions (userStats s))"
    and "cor \<equiv> set (correctQuestions (userStats s))"
    and "sel \<equiv> set (fst (selectSessionQuestions s))"
  shows "length (unseen_of s) = card {i. i < N \<and> Some i \<notin> seen}
    \<and> (QUESTIONS_PER_GAME \<le> length (unseen_of s) \<longrightarrow> (\<forall>i \<in> sel. i < N \<and> Some i \<notin> seen))
    \<and> (length (unseen_of s) < QUESTIONS_PER_GAME \<longrightarrow>
         (\<forall>i < N. Some i \<notin> seen \<longrightarrow> i \<in> sel)
         \<and> (\<forall>c \<in> sel. Some c \<in> seen \<and> Some c \<in> cor \<longrightarrow>
              (\<forall>i < N. Some i \<in> seen \<and> Some i \<notin> cor \<longrightarrow> i \<in> sel)))
    \<and> length (fst (selectSessionQuestions s)) \<le> QUESTIONS_PER_GAME"
proof -
  obtain U I C where cat: "mset U = mset (unseen_of s)" "mset I = mset (seenIncorrect_of s)"
      "mset C = mset (seenCorrect_of s)"
    and shape: "mset (fst (selectSessionQuestions s)) = mset (take QUESTIONS_PER_GAME (U @ I @ C))"
    using select_shape [of s] by blast
  have sel: "sel = set (take QUESTIONS_PER_GAME (U @ I @ C))"
    unfolding sel_def using mset_eq_setD [OF shape] .
  have lenU: "length U = length (unseen_of s)" using mset_eq_length [OF cat(1)] .
  have setU: "set U = {i. i < N \<and> Some i \<notin> seen}"
    using mset_eq_setD [OF cat(1)] by (auto simp: unseen_of_def allIndices_def N_def seen_def)
  have setI: "set I = {i. i < N \<and> Some i \<in> seen \<and> Some i \<notin> cor}"
    using mset_eq_setD [OF cat(2)]
    by (auto simp: seenIncorrect_of_def allIndices_def N_def seen_def cor_def)
  have count: "length (unseen_of s) = card {i. i < N \<and> Some i \<notin> seen}"
    unfolding N_def seen_def by (rule length_unseen_of)
  have enough: "\<forall>i \<in> sel. i < N \<and> Some i \<notin> seen" if "QUESTIONS_PER_GAME \<le> length (unseen_of s)"
  proof -
    from that lenU have "take QUESTIONS_PER_GAME (U @ I @ C) = take QUESTIONS_PER_GAME U" by simp
    then have "sel = set (take QUESTIONS_PER_GAME U)" by (simp only: sel)
    then have "sel \<subseteq> set U" by (simp only: set_take_subset)
    then show ?thesis using setU by blast
  qed
  have few: "(\<forall>i < N. Some i \<notin> seen \<longrightarrow> i \<in> sel)
         \<and> (\<forall>c \<in> sel. Some c \<in> seen \<and> Some c \<in> cor \<longrightarrow>
              (\<forall>i < N. Some i \<in> seen \<and> Some i \<notin> cor \<longrightarrow> i \<in> sel))"
    if "length (unseen_of s) < QUESTIONS_PER_GAME"
  proof -
    from that lenU have "set U \<subseteq> sel" unfolding sel by (simp add: take_append_covers)
    then have a: "\<forall>i < N. Some i \<notin> seen \<longrightarrow> i \<in> sel" using setU by blast
    have b: "\<forall>i < N. Some i \<in> seen \<and> Some i \<notin> cor \<longrightarrow> i \<in> sel"
      if c: "c \<in> sel" "Some c \<in> seen" "Some c \<in> cor" for c
    proof -
      have "c \<notin> set (U @ I)" using c(2,3) setU setI by simp
      moreover have "c \<in> set (take QUESTIONS_PER_GAME ((U @ I) @ C))" using c(1) sel by simp
      ultimately have "length (U @ I) < QUESTIONS_PER_GAME" by (rule take_append_reaches [rotated])
      then have "set (U @ I) \<subseteq> set (take QUESTIONS_PER_GAME ((U @ I) @ C))"
        by (rule take_append_covers)
      then have "set I \<subseteq> sel" unfolding sel by simp
      then show ?thesis using setI by blast
    qed
    show ?thesis using a b by blast
  qed
  have "length (fst (selectSessionQuestions s)) \<le> QUESTIONS_PER_GAME"
    using mset_eq_length [OF shape] by (simp only: length_take)
  with count enough few show ?thesis by blast
qed

theorem selectSessionQuestions_priority_witness:
  "length (unseen_of partly_played) < QUESTIONS_PER_GAME
   \<and> 0 \<in> set (fst (selectSessionQuestions partly_played))
   \<and> 2 \<in> set (fst (selectSessionQuestions partly_played))
   \<and> 1 \<in> set (fst (selectSessionQuestions partly_played))
   \<and> QUESTIONS_PER_GAME \<le> length (unseen_of big_bank)
   \<and> set (fst (selectSessionQuestions big_bank)) \<subseteq> {..< 21}"
proof -
  have few: "length (unseen_of partly_played) < QUESTIONS_PER_GAME"
    by (simp add: unseen_of_def allIndices_def partly_played_def sample_page_def
        initial_state_def sample_questions_def QUESTIONS_PER_GAME_def upt_rec)
  have u: "0 < length (questions partly_played)
           \<and> Some 0 \<notin> set (seenQuestions (userStats partly_played))"
    by (simp add: partly_played_def sample_page_def initial_state_def sample_questions_def)
  have many: "QUESTIONS_PER_GAME \<le> length (unseen_of big_bank)"
    by (simp add: unseen_of_def allIndices_def big_bank_def initial_state_def empty_stats_def
        QUESTIONS_PER_GAME_def)
  have n: "length (questions big_bank) = 21"
    by (simp add: big_bank_def initial_state_def)
  have "0 \<in> set (fst (selectSessionQuestions partly_played))"
    using selectSessionQuestions_priority [of partly_played] few u by blast
  moreover have two: "2 \<in> set (fst (selectSessionQuestions partly_played))"
    by (simp add: selectSessionQuestions_def partly_played_def sample_page_def
        initial_state_def sample_questions_def zero_rng_def unseen_of_def seenIncorrect_of_def
        seenCorrect_of_def allIndices_def shuffle_def random_below_def swap_def push_def
        QUESTIONS_PER_GAME_def upt_rec)
  moreover have "1 \<in> set (fst (selectSessionQuestions partly_played))"
  proof -
    have "2 < length (questions partly_played)
          \<and> Some 2 \<in> set (seenQuestions (userStats partly_played))
          \<and> Some 2 \<in> set (correctQuestions (userStats partly_played))
          \<and> 1 < length (questions partly_played)
          \<and> Some 1 \<in> set (seenQuestions (userStats partly_played))
          \<and> Some 1 \<notin> set (correctQuestions (userStats partly_played))"
      by (simp add: partly_played_def sample_page_def initial_state_def sample_questions_def)
    then show ?thesis
      using selectSessionQuestions_priority [of partly_played] few two by blast
  qed
  moreover have "set (fst (selectSessionQuestions big_bank)) \<subseteq> {..< 21}"
    using selectSessionQuestions_priority [of big_bank] many n by auto
  ultimately show ?thesis using few many by blast
qed

section \<open>Answering a question\<close>

lemma index_from_absent: "v \<notin> set xs \<Longrightarrow> index_from k xs v = -1"
  by (induction xs arbitrary: k) auto

lemma index_from_present:
  "v \<in> set xs \<Longrightarrow>
     int k \<le> index_from k xs v \<and> index_from k xs v < int k + int (length xs)
     \<and> xs ! (nat (index_from k xs v) - k) = v
     \<and> splice1 xs (nat (index_from k xs v) - k) = remove1 v xs"
proof (induction xs arbitrary: k)
  case Nil
  then show ?case by simp
next
  case (Cons x xs)
  show ?case
  proof (cases "x = v")
    case True
    then show ?thesis by (simp add: splice1_def)
  next
    case False
    with Cons.prems have "v \<in> set xs" by simp
    from Cons.IH [OF this, of "Suc k"]
    have ih: "int (Suc k) \<le> index_from (Suc k) xs v"
      "index_from (Suc k) xs v < int (Suc k) + int (length xs)"
      "xs ! (nat (index_from (Suc k) xs v) - Suc k) = v"
      "splice1 xs (nat (index_from (Suc k) xs v) - Suc k) = remove1 v xs"
      by blast+
    obtain d where d: "nat (index_from (Suc k) xs v) - k = Suc d"
      "nat (index_from (Suc k) xs v) - Suc k = d"
      using ih(1) by (cases "nat (index_from (Suc k) xs v) - k") auto
    show ?thesis using False ih d by (simp add: splice1_def)
  qed
qed

lemma indexOf_absent: "v \<notin> set xs \<Longrightarrow> indexOf xs v = -1"
  by (simp add: indexOf_def index_from_absent)

lemma indexOf_present:
  assumes "v \<in> set xs"
  shows "0 \<le> indexOf xs v" and "indexOf xs v < int (length xs)"
    and "xs ! nat (indexOf xs v) = v" and "splice1 xs (nat (indexOf xs v)) = remove1 v xs"
  using index_from_present [OF assms, of 0] by (simp_all add: indexOf_def)

text \<open>What \<open>selectAnswer\<close> leaves in each global.\<close>

lemma selectAnswer_userStats:
  "userStats (snd (selectAnswer d s))
   = answered_stats (int d = currentCorrectShuffled s) (currentQuestionIndex s) (userStats s)"
proof (cases "currentQuestionIndex s \<in> set (correctQuestions (userStats s))")
  case True
  then show ?thesis
    using indexOf_present(1,4) [OF True]
    by (cases "userStats s")
      (simp add: selectAnswer_def Let_def saveUserData_def array_includes_def push_def
        answered_stats_def)
next
  case False
  then show ?thesis
    using indexOf_absent [OF False]
    by (cases "userStats s")
      (simp add: selectAnswer_def Let_def saveUserData_def array_includes_def push_def
        answered_stats_def remove1_idem)
qed

lemma selectAnswer_sessionScore:
  "sessionScore (snd (selectAnswer d s))
   = (if int d = currentCorrectShuffled s then sessionScore s + 1 else sessionScore s)"
  by (simp add: selectAnswer_def Let_def saveUserData_def)

lemma selectAnswer_streak:
  "streak (snd (selectAnswer d s))
   = (if int d = currentCorrectShuffled s then streak s + 1 else 0)"
  by (simp add: selectAnswer_def Let_def saveUserData_def)

lemma selectAnswer_sessionAnswered:
  "sessionAnswered (snd (selectAnswer d s)) = sessionAnswered s + 1"
  by (simp add: selectAnswer_def Let_def saveUserData_def)



text \<open>
  Claim C6. In every state, a correct answer adds exactly one to \<open>streak\<close> and to
  \<open>sessionScore\<close>; an incorrect answer sets \<open>streak\<close> to zero and leaves
  \<open>sessionScore\<close> unchanged.
\<close>

theorem selectAnswer_score_and_streak:
  "(int d = currentCorrectShuffled s \<longrightarrow>
      streak (snd (selectAnswer d s)) = streak s + 1
      \<and> sessionScore (snd (selectAnswer d s)) = sessionScore s + 1)
   \<and> (int d \<noteq> currentCorrectShuffled s \<longrightarrow>
      streak (snd (selectAnswer d s)) = 0
      \<and> sessionScore (snd (selectAnswer d s)) = sessionScore s)"
  by (simp add: selectAnswer_sessionScore selectAnswer_streak)

text \<open>
  Claim C9. \<open>goBack\<close> at position zero and \<open>goForward\<close> outside browsing return without
  an exception and leave the state exactly as it was.
\<close>

theorem navigation_no_op:
  "(viewingIndex s = 0 \<longrightarrow> goBack s = (None, s))
   \<and> (browseReturnPosition s = None \<longrightarrow> goForward s = (None, s))"
  by (simp add: goBack_def goForward_def)


theorem selectAnswer_score_and_streak_witness:
  "int 2 = currentCorrectShuffled replaying
   \<and> streak (snd (selectAnswer 2 replaying)) = 1
   \<and> sessionScore (snd (selectAnswer 2 replaying)) = 1
   \<and> int 0 \<noteq> currentCorrectShuffled replaying
   \<and> streak (snd (selectAnswer 0 (snd (selectAnswer 2 replaying)))) = 0
   \<and> sessionScore (snd (selectAnswer 0 (snd (selectAnswer 2 replaying)))) = 1"
proof -
  have h: "currentCorrectShuffled replaying = 2" "streak replaying = 0"
    "sessionScore replaying = 0"
    by (simp_all add: replaying_def partly_played_def sample_page_def initial_state_def)
  have c: "currentCorrectShuffled (snd (selectAnswer 2 replaying)) = 2"
    by (simp add: selectAnswer_def Let_def saveUserData_def h)
  show ?thesis
    using h c selectAnswer_score_and_streak [of 2 replaying]
      selectAnswer_score_and_streak [of 0 "snd (selectAnswer 2 replaying)"]
    by simp
qed

theorem navigation_no_op_witness:
  "viewingIndex sample_page = 0 \<and> goBack sample_page = (None, sample_page)
   \<and> browseReturnPosition sample_page = None \<and> goForward sample_page = (None, sample_page)"
proof -
  have h: "viewingIndex sample_page = 0" "browseReturnPosition sample_page = None"
    by (simp_all add: sample_page_def initial_state_def)
  show ?thesis using h navigation_no_op [of sample_page] by simp
qed

section \<open>Browsing and the progress record\<close>

lemma kept_showCompletionScreen:
  "kept_by_browsing (snd (showCompletionScreen s)) = kept_by_browsing s"
  by (simp add: showCompletionScreen_def kept_by_browsing_def Let_def)

lemma kept_loadNextQuestion:
  "kept_by_browsing (snd (loadNextQuestion s)) = kept_by_browsing s"
proof (cases "sessionAnswered s \<ge> QUESTIONS_PER_GAME")
  case True
  then show ?thesis by (simp add: loadNextQuestion_def kept_showCompletionScreen)
next
  case False
  then show ?thesis
    by (simp add: loadNextQuestion_def Let_def case_prod_beta kept_by_browsing_def
        split: option.splits)
qed

lemma kept_showReviewQuestion:
  "kept_by_browsing (snd (showReviewQuestion p s)) = kept_by_browsing s"
  by (simp add: showReviewQuestion_def kept_by_browsing_def split: option.splits)

lemma kept_viewingIndex [simp]:
  "kept_by_browsing (s\<lparr>viewingIndex := v\<rparr>) = kept_by_browsing s"
  by (simp add: kept_by_browsing_def)

lemma kept_browseReturnPosition [simp]:
  "kept_by_browsing (s\<lparr>browseReturnPosition := b\<rparr>) = kept_by_browsing s"
  by (simp add: kept_by_browsing_def)

lemma kept_goBack: "kept_by_browsing (snd (goBack s)) = kept_by_browsing s"
  by (simp add: goBack_def Let_def kept_showReviewQuestion)

lemma kept_goForward: "kept_by_browsing (snd (goForward s)) = kept_by_browsing s"
  by (simp add: goForward_def Let_def kept_showReviewQuestion kept_loadNextQuestion
      split: option.splits)




lemma userStats_loadNextQuestion: "userStats (snd (loadNextQuestion s)) = userStats s"
  using kept_loadNextQuestion [of s] by (simp add: kept_by_browsing_def)

lemma userStats_new_session: "userStats (snd (new_session s)) = userStats s"
  by (simp add: new_session_def Let_def case_prod_beta userStats_loadNextQuestion
      selectSessionQuestions_def)

lemma userStats_resetProgress:
  "userStats (snd (resetProgress b s)) = (if b then empty_stats else userStats s)"
  by (simp add: resetProgress_def Let_def userStats_new_session saveUserData_def)

lemma progress_inv_answered:
  "progress_inv st \<Longrightarrow> progress_inv (answered_stats ok q st)"
  by (auto simp: progress_inv_def answered_stats_def dest: notin_set_remove1)

text \<open>
  Claim C8. The empty progress record, which \<open>getUserData\<close> returns for a user without a
  stored record, satisfies \<open>correctQuestions \<subseteq> seenQuestions\<close>; \<open>selectAnswer\<close> and
  \<open>resetProgress\<close> preserve it, and a confirmed reset leaves the empty record.
\<close>

theorem progress_invariant:
  "progress_inv empty_stats
   \<and> (localStorage s (storage_key (quiz_theme s) (Some u)) = None
        \<longrightarrow> getUserData s u = Inr empty_stats)
   \<and> (progress_inv (userStats s) \<longrightarrow> progress_inv (userStats (snd (selectAnswer d s))))
   \<and> (progress_inv (userStats s) \<longrightarrow> progress_inv (userStats (snd (resetProgress b s))))
   \<and> userStats (snd (resetProgress True s)) = empty_stats"
proof -
  have "progress_inv empty_stats" by (simp add: progress_inv_def empty_stats_def)
  then show ?thesis
    by (simp add: getUserData_def selectAnswer_userStats progress_inv_answered
        userStats_resetProgress)
qed

theorem progress_invariant_witness:
  "localStorage sample_page (storage_key (quiz_theme sample_page) (Some ''ada'')) = None
   \<and> getUserData sample_page ''ada'' = Inr empty_stats
   \<and> progress_inv (userStats replaying)
   \<and> progress_inv (userStats (snd (selectAnswer 0 replaying)))
   \<and> progress_inv (userStats (snd (resetProgress False replaying)))"
proof -
  have h: "localStorage sample_page (storage_key (quiz_theme sample_page) (Some ''ada'')) = None"
    "progress_inv (userStats replaying)"
    by (simp_all add: sample_page_def initial_state_def replaying_def partly_played_def
        progress_inv_def)
  show ?thesis
    using h progress_invariant [of sample_page "''ada''" 0 False]
      progress_invariant [of replaying "''ada''" 0 False]
    by simp
qed

section \<open>The shuffle of the option positions\<close>

lemma sparse_get_set: "sparse_get (sparse_set xs i v) i = Some v"
  by (simp add: sparse_get_def sparse_set_def nth_append)

lemma selectAnswer_answerHistory:
  "answerHistory (snd (selectAnswer d s))
   = sparse_set (answerHistory s) (viewingIndex s)
       \<lparr>questionIndex = currentQuestionIndex s,
        selectedIndex = d,
        isCorrect = (int d = currentCorrectShuffled s),
        shuffledOptions = currentShuffledOptions s,
        correctShuffled = currentCorrectShuffled s\<rparr>"
  by (simp add: selectAnswer_def Let_def saveUserData_def)

lemma indexOf_unique:
  assumes "distinct xs" and "v \<in> set xs" and "d < length xs"
  shows "(int d = indexOf xs v) = (xs ! d = v)"
proof -
  have i: "0 \<le> indexOf xs v" "nat (indexOf xs v) < length xs" "xs ! nat (indexOf xs v) = v"
    using indexOf_present [OF assms(2)] by simp_all
  have "(xs ! d = xs ! nat (indexOf xs v)) = (d = nat (indexOf xs v))"
    using assms(1,3) i(2) by (simp add: nth_eq_iff_index_eq)
  then show ?thesis using i(1,3) by auto
qed

lemma loadNextQuestion_loaded:
  assumes "sessionAnswered s < QUESTIONS_PER_GAME"
    and "array_get (sessionQuestions s) (sessionAnswered s) = Some i"
    and "array_get (questions s) i = Some q"
  shows "loadNextQuestion s =
     (None, s\<lparr>viewingIndex := sessionAnswered s,
               currentQuestionIndex := Some i,
               currentShuffledOptions := fst (shuffle [0, 1, 2, 3 :: int] (rng s)),
               rng := snd (shuffle [0, 1, 2, 3 :: int] (rng s)),
               currentCorrectShuffled := indexOf (fst (shuffle [0, 1, 2, 3 :: int] (rng s))) (correct q),
               optionsClickable := True\<rparr>)"
  using assms by (simp add: loadNextQuestion_def Let_def case_prod_beta question_at_def)

text \<open>
  Claim C10. When \<open>loadNextQuestion\<close> loads a question whose \<open>correct\<close> field is between 0
  and 3, it returns normally, \<open>currentShuffledOptions\<close> is a permutation of the four
  option positions, \<open>currentCorrectShuffled\<close> is a position of it, and that position holds
  the question's \<open>correct\<close>. Hence for every display position \<open>d\<close>, the test by which
  \<open>selectAnswer d\<close> judges the answer holds exactly when the option shown at \<open>d\<close> is the
  original correct one, and the history entry written by that answer records this verdict
  together with the same permutation and the same remapped position.
\<close>

theorem loadNextQuestion_shuffle_consistent:
  assumes "sessionAnswered s < QUESTIONS_PER_GAME"
    and "array_get (sessionQuestions s) (sessionAnswered s) = Some i"
    and "array_get (questions s) i = Some q"
    and "0 \<le> correct q" and "correct q \<le> 3"
  shows "fst (loadNextQuestion s) = None
    \<and> mset (currentShuffledOptions (snd (loadNextQuestion s))) = mset [0, 1, 2, 3]
    \<and> 0 \<le> currentCorrectShuffled (snd (loadNextQuestion s))
    \<and> currentCorrectShuffled (snd (loadNextQuestion s)) < 4
    \<and> currentShuffledOptions (snd (loadNextQuestion s))
          ! nat (currentCorrectShuffled (snd (loadNextQuestion s))) = correct q
    \<and> (\<forall>d < 4.
          (int d = currentCorrectShuffled (snd (loadNextQuestion s)))
          = (currentShuffledOptions (snd (loadNextQuestion s)) ! d = correct q))
    \<and> (\<forall>d < 4.
          sparse_get (answerHistory (snd (selectAnswer d (snd (loadNextQuestion s)))))
            (viewingIndex (snd (loadNextQuestion s)))
          = Some \<lparr>questionIndex = Some i,
                  selectedIndex = d,
                  isCorrect = (currentShuffledOptions (snd (loadNextQuestion s)) ! d = correct q),
                  shuffledOptions = currentShuffledOptions (snd (loadNextQuestion s)),
                  correctShuffled = currentCorrectShuffled (snd (loadNextQuestion s))\<rparr>)"
proof -
  let ?xs = "fst (shuffle [0, 1, 2, 3 :: int] (rng s))"
  let ?s' = "snd (loadNextQuestion s)"
  have m: "mset ?xs = mset [0, 1, 2, 3]" by (rule mset_shuffle)
  have len: "length ?xs = 4" using mset_eq_length [OF m] by simp
  have dist: "distinct ?xs" using mset_eq_imp_distinct_iff [OF m] by simp
  have "set ?xs = {0, 1, 2, 3}" using mset_eq_setD [OF m] by simp
  moreover have "correct q \<in> {0, 1, 2, 3}" using assms(4,5) by auto
  ultimately have mem: "correct q \<in> set ?xs" by simp
  have ld: "fst (loadNextQuestion s) = None" "currentShuffledOptions ?s' = ?xs"
    "currentCorrectShuffled ?s' = indexOf ?xs (correct q)" "currentQuestionIndex ?s' = Some i"
    by (simp_all add: loadNextQuestion_loaded [OF assms(1-3)])
  have idx: "0 \<le> indexOf ?xs (correct q)" "indexOf ?xs (correct q) < 4"
    "?xs ! nat (indexOf ?xs (correct q)) = correct q"
    using indexOf_present [OF mem] len by simp_all
  have judged: "(int d = indexOf ?xs (correct q)) = (?xs ! d = correct q)" if "d < 4" for d
    using indexOf_unique [OF dist mem] that len by simp
  have hist: "sparse_get (answerHistory (snd (selectAnswer d ?s'))) (viewingIndex ?s')
      = Some \<lparr>questionIndex = Some i, selectedIndex = d,
               isCorrect = (?xs ! d = correct q),
               shuffledOptions = ?xs, correctShuffled = indexOf ?xs (correct q)\<rparr>"
    if "d < 4" for d
    using judged [OF that] by (simp add: selectAnswer_answerHistory sparse_get_set ld)
  show ?thesis using m idx hist judged by (simp add: ld)
qed

theorem loadNextQuestion_shuffle_consistent_witness:
  "sessionAnswered replaying < QUESTIONS_PER_GAME
   \<and> array_get (sessionQuestions replaying) (sessionAnswered replaying) = Some 2
   \<and> array_get (questions replaying) 2 = Some (sample_questions ! 2)
   \<and> 0 \<le> correct (sample_questions ! 2)
   \<and> correct (sample_questions ! 2) \<le> 3
   \<and> fst (loadNextQuestion replaying) = None
   \<and> currentShuffledOptions (snd (loadNextQuestion replaying))
         ! nat (currentCorrectShuffled (snd (loadNextQuestion replaying))) = 3"
proof -
  have h: "sessionAnswered replaying < QUESTIONS_PER_GAME"
    "array_get (sessionQuestions replaying) (sessionAnswered replaying) = Some 2"
    "array_get (questions replaying) 2 = Some (sample_questions ! 2)"
    "0 \<le> correct (sample_questions ! 2)"
    "correct (sample_questions ! 2) \<le> 3"
    by (simp_all add: replaying_def partly_played_def sample_page_def initial_state_def
        sample_questions_def array_get_def QUESTIONS_PER_GAME_def)
  have c: "correct (sample_questions ! 2) = 3" by (simp add: sample_questions_def)
  show ?thesis
    using h loadNextQuestion_shuffle_consistent [OF h] by (simp only: c)
qed

section \<open>The invariant of the session counters\<close>

lemma select_length: "length (fst (selectSessionQuestions s)) \<le> QUESTIONS_PER_GAME"
proof -
  obtain U I C where
    "mset (fst (selectSessionQuestions s)) = mset (take QUESTIONS_PER_GAME (U @ I @ C))"
    using select_shape [of s] by blast
  from mset_eq_length [OF this] show ?thesis by (simp only: length_take)
qed

lemma select_nonempty:
  assumes "questions s \<noteq> []"
  shows "fst (selectSessionQuestions s) \<noteq> []"
proof -
  obtain U I C where cat: "mset U = mset (unseen_of s)" "mset I = mset (seenIncorrect_of s)"
      "mset C = mset (seenCorrect_of s)"
    and shape: "mset (fst (selectSessionQuestions s)) = mset (take QUESTIONS_PER_GAME (U @ I @ C))"
    using select_shape [of s] by blast
  have "0 \<in> set (allIndices s)" using assms by (simp add: allIndices_def)
  then have "0 \<in> set (unseen_of s) \<or> 0 \<in> set (seenIncorrect_of s) \<or> 0 \<in> set (seenCorrect_of s)"
    by (auto simp: unseen_of_def seenIncorrect_of_def seenCorrect_of_def)
  then have "0 \<in> set U \<or> 0 \<in> set I \<or> 0 \<in> set C"
    using mset_eq_setD [OF cat(1)] mset_eq_setD [OF cat(2)] mset_eq_setD [OF cat(3)] by simp
  then have "U @ I @ C \<noteq> []" by auto
  then have "take QUESTIONS_PER_GAME (U @ I @ C) \<noteq> []" by (simp add: QUESTIONS_PER_GAME_def)
  then show ?thesis using shape by (metis mset_zero_iff)
qed

lemma select_state:
  "questions (snd (selectSessionQuestions s)) = questions s
   \<and> optionsClickable (snd (selectSessionQuestions s)) = optionsClickable s
   \<and> sessionAnswered (snd (selectSessionQuestions s)) = sessionAnswered s
   \<and> activeScreen (snd (selectSessionQuestions s)) = activeScreen s"
  by (simp add: selectSessionQuestions_def Let_def case_prod_beta)

lemma session_inv_showCompletionScreen:
  "session_inv s \<Longrightarrow> session_inv (snd (showCompletionScreen s))"
  by (simp add: session_inv_def showCompletionScreen_def Let_def)

lemma session_inv_loadNextQuestion:
  assumes "session_inv s"
  shows "session_inv (snd (loadNextQuestion s))"
proof (cases "sessionAnswered s \<ge> QUESTIONS_PER_GAME")
  case True
  then show ?thesis using assms by (simp add: loadNextQuestion_def session_inv_showCompletionScreen)
next
  case False
  then show ?thesis using assms
    by (auto simp: loadNextQuestion_def Let_def case_prod_beta session_inv_def question_at_def
        array_get_def split: option.splits if_splits)
qed

lemma session_inv_showReviewQuestion:
  "session_inv s \<Longrightarrow> session_inv (snd (showReviewQuestion p s))"
  by (simp add: session_inv_def showReviewQuestion_def split: option.splits)

lemma session_inv_viewingIndex [simp]:
  "session_inv (s\<lparr>viewingIndex := v\<rparr>) = session_inv s"
  by (simp add: session_inv_def)

lemma session_inv_browseReturnPosition [simp]:
  "session_inv (s\<lparr>browseReturnPosition := b\<rparr>) = session_inv s"
  by (simp add: session_inv_def)

lemma session_inv_new_session:
  assumes "session_inv s"
  shows "session_inv (snd (new_session s))"
proof -
  let ?s1 = "s\<lparr>sessionScore := 0, sessionAnswered := 0, streak := 0, answerHistory := [],
               viewingIndex := 0, browseReturnPosition := None\<rparr>"
  let ?s3 = "(snd (selectSessionQuestions ?s1))\<lparr>sessionQuestions := fst (selectSessionQuestions ?s1),
               activeScreen := GameScreen\<rparr>"
  have n: "new_session s = loadNextQuestion ?s3"
    by (simp add: new_session_def Let_def case_prod_beta)
  have q: "questions ?s1 = questions s" by simp
  have "optionsClickable s \<longrightarrow> fst (selectSessionQuestions ?s1) \<noteq> []"
    using assms select_nonempty [of ?s1] by (simp add: session_inv_def)
  then have "session_inv ?s3"
    using assms select_length [of ?s1] select_state [of ?s1]
    by (simp add: session_inv_def)
  then show ?thesis unfolding n by (rule session_inv_loadNextQuestion)
qed

lemma session_inv_handle:
  assumes "session_inv s"
  shows "session_inv (snd (handle e s))"
proof (cases e)
  case (StartGame u)
  have "session_inv (s\<lparr>currentUser := a, localStorage := b, userStats := d\<rparr>)" for a b d
    using assms by (simp add: session_inv_def)
  moreover have "session_inv (s\<lparr>currentUser := a, localStorage := b\<rparr>)" for a b
    using assms by (simp add: session_inv_def)
  ultimately show ?thesis using assms StartGame
    by (simp add: startGame_def Let_def session_inv_new_session split: sum.splits)
next
  case (ClickOption d)
  then show ?thesis using assms
    by (auto simp: session_inv_def selectAnswer_def Let_def saveUserData_def)
next
  case NextQuestion
  then show ?thesis using assms
    by (simp add: nextQuestion_def Let_def session_inv_loadNextQuestion
        session_inv_showCompletionScreen)
next
  case GoBack
  then show ?thesis using assms
    by (simp add: goBack_def Let_def session_inv_showReviewQuestion)
next
  case GoForward
  then show ?thesis using assms
    by (simp add: goForward_def Let_def session_inv_showReviewQuestion
        session_inv_loadNextQuestion split: option.splits)
next
  case (ResetProgress b)
  have "session_inv (s\<lparr>userStats := d, localStorage := l\<rparr>)" for d l
    using assms by (simp add: session_inv_def)
  then show ?thesis using assms ResetProgress
    by (simp add: resetProgress_def Let_def saveUserData_def session_inv_new_session)
next
  case PlayAgain
  then show ?thesis using assms by (simp add: playAgain_def session_inv_new_session)
next
  case Logout
  then show ?thesis using assms by (simp add: logout_def session_inv_def)
qed

lemma session_inv_initial: "session_inv (initial_state qs th ls g)"
  by (simp add: session_inv_def initial_state_def)

lemma session_inv_run: "session_inv s \<Longrightarrow> session_inv (run es s)"
  by (induction es arbitrary: s) (simp_all add: session_inv_handle)

text \<open>
  Every state that the page reaches from its loaded state satisfies the invariant.
\<close>

lemma session_inv_reachable: "session_inv (run es (initial_state qs th ls g))"
  by (rule session_inv_run) (rule session_inv_initial)

section \<open>Completing a session\<close>

lemma Math_round_percent:
  "Math_round ((of_nat n / of_nat QUESTIONS_PER_GAME) * 100) = 5 * int n"
proof -
  have "(of_nat n / of_nat QUESTIONS_PER_GAME) * 100 = (of_int (5 * int n) :: rat)"
    by (simp add: QUESTIONS_PER_GAME_def)
  then have "Math_round ((of_nat n / of_nat QUESTIONS_PER_GAME) * 100)
             = \<lfloor>(of_int (5 * int n) :: rat) + 1 / 2\<rfloor>"
    by (simp only: Math_round_def)
  also have "\<dots> = 5 * int n" by (rule floor_unique) simp_all
  finally show ?thesis .
qed

lemma find_rank_first_match:
  "find_rank rs p = (case List.find (\<lambda>r. rank_min r \<le> p) rs of None \<Rightarrow> [] | Some r \<Rightarrow> label r)"
  by (induction rs) simp_all

lemma showCompletionScreen_fields:
  "activeScreen (snd (showCompletionScreen s)) = CompletionScreen"
  "finalPercentage (snd (showCompletionScreen s))
   = Math_round ((of_nat (sessionScore s) / of_nat QUESTIONS_PER_GAME) * 100)"
  "rankDisplay (snd (showCompletionScreen s))
   = find_rank (ranks (quiz_theme s)) (finalPercentage (snd (showCompletionScreen s)))"
  "sessionScore (snd (showCompletionScreen s)) = sessionScore s"
  "sessionQuestions (snd (showCompletionScreen s)) = sessionQuestions s"
  "sessionAnswered (snd (showCompletionScreen s)) = sessionAnswered s"
  "quiz_theme (snd (showCompletionScreen s)) = quiz_theme s"
  by (simp_all add: showCompletionScreen_def Let_def)

lemma loadNextQuestion_enters:
  assumes "activeScreen s \<noteq> CompletionScreen"
    and "activeScreen (snd (loadNextQuestion s)) = CompletionScreen"
  shows "completed_ok (snd (loadNextQuestion s))"
proof (cases "sessionAnswered s \<ge> QUESTIONS_PER_GAME")
  case True
  then show ?thesis
    by (simp add: loadNextQuestion_def completed_ok_def showCompletionScreen_fields)
next
  case False
  then have "activeScreen (snd (loadNextQuestion s)) = activeScreen s"
    by (simp add: loadNextQuestion_def Let_def case_prod_beta split: option.splits)
  with assms show ?thesis by simp
qed

lemma showReviewQuestion_screen:
  "activeScreen (snd (showReviewQuestion p s)) = activeScreen s"
  by (simp add: showReviewQuestion_def split: option.splits)

lemma new_session_screen: "activeScreen (snd (new_session s)) = GameScreen"
  by (simp add: new_session_def loadNextQuestion_def Let_def case_prod_beta
      selectSessionQuestions_def QUESTIONS_PER_GAME_def split: option.splits)

lemma handle_enters:
  assumes "activeScreen s \<noteq> CompletionScreen"
    and "activeScreen (snd (handle e s)) = CompletionScreen"
  shows "completed_ok (snd (handle e s))"
proof (cases e)
  case (StartGame u)
  with assms show ?thesis
    by (simp add: startGame_def Let_def new_session_screen split: if_splits sum.splits)
next
  case (ClickOption d)
  with assms show ?thesis
    by (simp add: selectAnswer_def Let_def saveUserData_def split: if_splits)
next
  case NextQuestion
  show ?thesis
  proof (cases "sessionAnswered s \<ge> QUESTIONS_PER_GAME")
    case True
    with NextQuestion show ?thesis
      by (simp add: nextQuestion_def Let_def completed_ok_def showCompletionScreen_def)
  next
    case False
    with NextQuestion assms
      loadNextQuestion_enters [of "s\<lparr>browseReturnPosition := None\<rparr>"]
    show ?thesis by (simp add: nextQuestion_def Let_def)
  qed
next
  case GoBack
  with assms show ?thesis
    by (simp add: goBack_def Let_def showReviewQuestion_screen split: if_splits)
next
  case GoForward
  show ?thesis
  proof (cases "browseReturnPosition s")
    case None
    with GoForward assms show ?thesis by (simp add: goForward_def)
  next
    case (Some p)
    with GoForward assms
      loadNextQuestion_enters [of "s\<lparr>browseReturnPosition := None, viewingIndex := p\<rparr>"]
    show ?thesis
      by (simp add: goForward_def Let_def showReviewQuestion_screen split: if_splits)
  qed
next
  case (ResetProgress b)
  with assms show ?thesis
    by (simp add: resetProgress_def Let_def new_session_screen split: if_splits)
next
  case PlayAgain
  with assms show ?thesis by (simp add: playAgain_def new_session_screen)
next
  case Logout
  with assms show ?thesis by (simp add: logout_def)
qed

text \<open>
  Claim C4. Whenever a handler takes the page to the completion screen, from a state that
  satisfies the invariant of the session counters (as every reachable state does, by
  \<open>session_inv_reachable\<close>), the session has exactly twenty questions, the percentage
  shown is \<open>sessionScore\<close> divided by the number of session questions, as a rounded
  percentage, and the rank shown is the label of the first entry of the rank table, in its
  given order, whose minimum the percentage reaches. With a score of 18 and the default
  table, that is the label of the entry with minimum 90.
\<close>

theorem completion_score_and_rank:
  assumes "session_inv s"
    and "activeScreen s \<noteq> CompletionScreen"
    and "activeScreen (snd (handle e s)) = CompletionScreen"
  shows "length (sessionQuestions (snd (handle e s))) = QUESTIONS_PER_GAME
    \<and> finalPercentage (snd (handle e s))
        = Math_round ((of_nat (sessionScore (snd (handle e s)))
                       / of_nat (length (sessionQuestions (snd (handle e s))))) * 100)
    \<and> rankDisplay (snd (handle e s))
        = (case List.find (\<lambda>r. rank_min r \<le> finalPercentage (snd (handle e s)))
                  (ranks (quiz_theme (snd (handle e s)))) of
             None \<Rightarrow> [] | Some r \<Rightarrow> label r)
    \<and> (sessionScore (snd (handle e s)) = 18
          \<and> ranks (quiz_theme (snd (handle e s))) = default_ranks
        \<longrightarrow> finalPercentage (snd (handle e s)) = 90
            \<and> rankDisplay (snd (handle e s)) = label (default_ranks ! 1)
            \<and> rank_min (default_ranks ! 1) = 90)"
proof -
  let ?s' = "snd (handle e s)"
  have ok: "completed_ok ?s'" using assms(2,3) by (rule handle_enters)
  have "session_inv ?s'" using assms(1) by (rule session_inv_handle)
  then have len: "length (sessionQuestions ?s') = QUESTIONS_PER_GAME"
    using ok by (simp add: session_inv_def completed_ok_def)
  have pct: "finalPercentage ?s'
      = Math_round ((of_nat (sessionScore ?s') / of_nat QUESTIONS_PER_GAME) * 100)"
    using ok by (simp add: completed_ok_def)
  have rk: "rankDisplay ?s' = find_rank (ranks (quiz_theme ?s')) (finalPercentage ?s')"
    using ok by (simp add: completed_ok_def)
  have ex: "finalPercentage ?s' = 90 \<and> rankDisplay ?s' = label (default_ranks ! 1)
      \<and> rank_min (default_ranks ! 1) = 90"
    if "sessionScore ?s' = 18" "ranks (quiz_theme ?s') = default_ranks"
  proof -
    have "finalPercentage ?s' = 5 * int (sessionScore ?s')"
      using pct by (simp only: Math_round_percent)
    then have "finalPercentage ?s' = 90" using that(1) by simp
    then show ?thesis using rk that(2) by (simp add: default_ranks_def)
  qed
  have pct': "finalPercentage ?s'
      = Math_round ((of_nat (sessionScore ?s') / of_nat (length (sessionQuestions ?s'))) * 100)"
    using pct by (simp only: len)
  have rk': "rankDisplay ?s'
      = (case List.find (\<lambda>r. rank_min r \<le> finalPercentage ?s') (ranks (quiz_theme ?s')) of
           None \<Rightarrow> [] | Some r \<Rightarrow> label r)"
    using rk by (simp only: find_rank_first_match)
  show ?thesis
    using len pct' rk' ex by blast
qed

theorem completion_score_and_rank_witness:
  "session_inv twenty_answered
   \<and> activeScreen twenty_answered \<noteq> CompletionScreen
   \<and> activeScreen (snd (handle NextQuestion twenty_answered)) = CompletionScreen
   \<and> sessionScore (snd (handle NextQuestion twenty_answered)) = 18
   \<and> ranks (quiz_theme (snd (handle NextQuestion twenty_answered))) = default_ranks
   \<and> length (sessionQuestions (snd (handle NextQuestion twenty_answered))) = 20
   \<and> finalPercentage (snd (handle NextQuestion twenty_answered)) = 90
   \<and> rankDisplay (snd (handle NextQuestion twenty_answered)) = ''Olympian Champion''"
proof -
  have h: "session_inv twenty_answered"
    "activeScreen twenty_answered \<noteq> CompletionScreen"
    "activeScreen (snd (handle NextQuestion twenty_answered)) = CompletionScreen"
    by (simp_all add: session_inv_def twenty_answered_def big_bank_def initial_state_def
        QUESTIONS_PER_GAME_def nextQuestion_def showCompletionScreen_def Let_def)
  have v: "sessionScore (snd (handle NextQuestion twenty_answered)) = 18"
    "ranks (quiz_theme (snd (handle NextQuestion twenty_answered))) = default_ranks"
    by (simp_all add: twenty_answered_def big_bank_def initial_state_def default_theme_def
        QUESTIONS_PER_GAME_def nextQuestion_def showCompletionScreen_def Let_def)
  have l: "label (default_ranks ! 1) = ''Olympian Champion''" by (simp add: default_ranks_def)
  have "length (sessionQuestions (snd (handle NextQuestion twenty_answered))) = QUESTIONS_PER_GAME
    \<and> finalPercentage (snd (handle NextQuestion twenty_answered)) = 90
    \<and> rankDisplay (snd (handle NextQuestion twenty_answered)) = label (default_ranks ! 1)"
    using v completion_score_and_rank [OF h] by blast
  then show ?thesis
    using h v by (simp only: l QUESTIONS_PER_GAME_def) simp
qed

text \<open>
  Advancing at the end of a session of fewer than \<open>QUESTIONS_PER_GAME\<close> questions reads
  past the end of \<open>sessionQuestions\<close> and throws.
\<close>

lemma undersized_advance_throws:
  assumes "sessionAnswered s = length (sessionQuestions s)"
    and "length (sessionQuestions s) < QUESTIONS_PER_GAME"
  shows "fst (nextQuestion s) = Some TypeError
    \<and> activeScreen (snd (nextQuestion s)) = activeScreen s
    \<and> currentQuestionIndex (snd (nextQuestion s)) = None"
  using assms
  by (simp add: nextQuestion_def loadNextQuestion_def Let_def case_prod_beta array_get_def
      question_at_def)

text \<open>
  Claim C3 fails on the code. With the three sample questions the session has three
  questions; after the third answer \<open>sessionAnswered\<close> equals their number, and
  \<open>nextQuestion\<close>, which compares \<open>sessionAnswered\<close> with \<open>QUESTIONS_PER_GAME\<close> and not
  with the length of \<open>sessionQuestions\<close>, loads a question past the end, throws a
  \<open>TypeError\<close> and stays on the game screen. With an empty bank \<open>startGame\<close> throws in
  the same way on loading the first question.
\<close>

theorem undersized_session_never_completes:
  "length (sessionQuestions three_answered) = 3
   \<and> sessionAnswered three_answered = 3
   \<and> activeScreen three_answered = GameScreen
   \<and> fst (nextQuestion three_answered) = Some TypeError
   \<and> activeScreen (snd (nextQuestion three_answered)) = GameScreen
   \<and> currentQuestionIndex (snd (nextQuestion three_answered)) = None
   \<and> fst (startGame ''ada'' empty_page) = Some TypeError
   \<and> activeScreen (snd (startGame ''ada'' empty_page)) = GameScreen"
  by code_simp

section \<open>Well-formed progress in every reachable state\<close>

lemma stats_wf_empty: "stats_wf empty_stats"
  by (simp add: stats_wf_def empty_stats_def)

lemma stats_wf_answered: "stats_wf st \<Longrightarrow> stats_wf (answered_stats ok q st)"
  by (auto simp: stats_wf_def answered_stats_def dest: notin_set_remove1)

lemma selectAnswer_localStorage:
  "localStorage (snd (selectAnswer d s))
   = (localStorage s)(storage_key (quiz_theme s) (currentUser s)
        \<mapsto> StoredStats (userStats (snd (selectAnswer d s))))"
  by (simp add: selectAnswer_def Let_def saveUserData_def)

lemma localStorage_new_session: "localStorage (snd (new_session s)) = localStorage s"
proof -
  have "localStorage (snd (loadNextQuestion t)) = localStorage t" for t
    using kept_loadNextQuestion [of t] by (simp add: kept_by_browsing_def)
  then show ?thesis
    by (simp add: new_session_def Let_def case_prod_beta selectSessionQuestions_def)
qed

lemma storage_wf_update:
  "storage_wf ls \<Longrightarrow> stats_wf d \<Longrightarrow> storage_wf (ls(k \<mapsto> StoredStats d))"
  by (simp add: storage_wf_def)

lemma storage_wf_text: "storage_wf ls \<Longrightarrow> storage_wf (ls(k \<mapsto> StoredText t))"
  by (simp add: storage_wf_def)

text \<open>
  Every handler keeps the progress record and the storage well-formed.
\<close>

lemma wf_handle:
  assumes "stats_wf (userStats s)" and "storage_wf (localStorage s)"
  shows "stats_wf (userStats (snd (handle e s))) \<and> storage_wf (localStorage (snd (handle e s)))"
proof (cases e)
  case (StartGame u)
  let ?ls = "(localStorage s)(storagePrefix (quiz_theme s) @ ''_lastUser'' \<mapsto> StoredText u)"
  let ?s1 = "s\<lparr>currentUser := Some u, localStorage := ?ls\<rparr>"
  have ls: "storage_wf ?ls" using assms(2) by (rule storage_wf_text)
  show ?thesis
  proof (cases "u = []")
    case True
    with StartGame assms show ?thesis by (simp add: startGame_def)
  next
    case False
    show ?thesis
    proof (cases "getUserData ?s1 u")
      case (Inl x)
      with False StartGame assms(1) ls show ?thesis by (simp add: startGame_def Let_def)
    next
      case (Inr d)
      then have "d = empty_stats
          \<or> ?ls (storage_key (quiz_theme s) (Some u)) = Some (StoredStats d)"
        by (auto simp: getUserData_def split: option.splits stored.splits if_splits)
      then have "stats_wf d" using ls stats_wf_empty unfolding storage_wf_def by blast
      with False StartGame Inr ls show ?thesis
        by (simp add: startGame_def Let_def userStats_new_session localStorage_new_session)
    qed
  qed
next
  case (ClickOption d)
  then show ?thesis using assms
    by (simp add: selectAnswer_userStats selectAnswer_localStorage stats_wf_answered
        storage_wf_update)
next
  case NextQuestion
  have "kept_by_browsing (snd (nextQuestion s)) = kept_by_browsing s"
    by (simp add: nextQuestion_def Let_def kept_showCompletionScreen kept_loadNextQuestion)
  then show ?thesis using assms NextQuestion by (simp add: kept_by_browsing_def)
next
  case GoBack
  then show ?thesis using assms kept_goBack [of s] by (simp add: kept_by_browsing_def)
next
  case GoForward
  then show ?thesis using assms kept_goForward [of s] by (simp add: kept_by_browsing_def)
next
  case (ResetProgress b)
  then show ?thesis using assms
    by (simp add: resetProgress_def Let_def userStats_new_session localStorage_new_session
        saveUserData_def stats_wf_empty storage_wf_update)
next
  case PlayAgain
  then show ?thesis using assms
    by (simp add: playAgain_def userStats_new_session localStorage_new_session)
next
  case Logout
  then show ?thesis using assms by (simp add: logout_def stats_wf_empty)
qed

lemma wf_run:
  "stats_wf (userStats s) \<Longrightarrow> storage_wf (localStorage s) \<Longrightarrow>
   stats_wf (userStats (run es s)) \<and> storage_wf (localStorage (run es s))"
  by (induction es arbitrary: s) (simp_all add: wf_handle)

text \<open>
  From a page whose storage is well-formed, every reachable progress record is well-formed.
\<close>

lemma stats_wf_reachable:
  "storage_wf ls \<Longrightarrow> stats_wf (userStats (run es (initial_state qs th ls g)))"
  using wf_run [of "initial_state qs th ls g" es]
  by (simp add: initial_state_def stats_wf_empty)

end
